theory Spec2Isabelle
  imports Complex_Main "HOL-Library.Log_Nat"
begin

section \<open>Countdown as a service: the job registry, the completion timer and the status view\<close>

text \<open>
  A shallow embedding of \<^verbatim>\<open>main.go\<close>. The package keeps its state in the globals
  \<^verbatim>\<open>history\<close>, \<^verbatim>\<open>historyOrder\<close> and \<^verbatim>\<open>nextEntryID\<close>, guarded by the mutex
  \<^verbatim>\<open>mu\<close>: every critical section is one atomic step of the model, which takes the globals
  and returns them updated. The clock is an input: each call of \<^verbatim>\<open>time.Now\<close> or
  \<^verbatim>\<open>time.Since\<close> in the source is a parameter of the function that makes it.
\<close>

subsection \<open>Time\<close>

text \<open>
  An instant is a number of nanoseconds on the clock of the process (every
  \<^verbatim>\<open>time.Time\<close> of the program comes from \<^verbatim>\<open>time.Now\<close>, and is compared and subtracted
  through its monotonic reading). A \<^verbatim>\<open>time.Duration\<close> is a signed 64-bit number of
  nanoseconds: the product \<^verbatim>\<open>time.Duration(n) * time.Second\<close> wraps around, and
  \<^verbatim>\<open>Time.Sub\<close> (behind \<^verbatim>\<open>time.Since\<close>) saturates at the least and the greatest
  duration. The Go \<^verbatim>\<open>int\<close> is the 64-bit one.
\<close>

type_synonym time = int

definition Second :: int where
  "Second = 1000000000"

definition wrap64 :: "int \<Rightarrow> int" where
  "wrap64 x = (x + 2 ^ 63) mod 2 ^ 64 - 2 ^ 63"

definition minDuration :: int where
  "minDuration = - (2 ^ 63)"

definition maxDuration :: int where
  "maxDuration = 2 ^ 63 - 1"

text \<open>\<^verbatim>\<open>time.Duration(n) * time.Second\<close>\<close>

definition secondsDuration :: "int \<Rightarrow> int" where
  "secondsDuration n = wrap64 (n * Second)"

text \<open>\<^verbatim>\<open>t.Add(d)\<close>\<close>

definition Add :: "time \<Rightarrow> int \<Rightarrow> time" where
  "Add t d = t + d"

text \<open>\<^verbatim>\<open>t.Sub(u)\<close>, and \<^verbatim>\<open>time.Since(u)\<close> when the clock reads \<open>t\<close>\<close>

definition Sub :: "time \<Rightarrow> time \<Rightarrow> int" where
  "Sub t u = (if t - u < minDuration then minDuration
              else if maxDuration < t - u then maxDuration
              else t - u)"

text \<open>\<^verbatim>\<open>t.After(u)\<close>\<close>

definition After :: "time \<Rightarrow> time \<Rightarrow> bool" where
  "After t u = (u < t)"

subsection \<open>Seconds as a 64-bit float\<close>

text \<open>
  \<^verbatim>\<open>Duration.Seconds\<close> computes in \<^verbatim>\<open>float64\<close>. A float is modelled by the rational
  number it stands for, and every operation by the exact result rounded to the nearest
  number with 53 significant bits, a tie to the one whose last bit is even
  (\<open>float64\<close>). \<open>ulp x\<close> is the distance between two such numbers around \<open>x\<close>: two to the
  power \<open>e - 52\<close> when \<open>\<bar>x\<bar>\<close> is at least two to the power \<open>e\<close> and less than twice that.
  The seconds of a duration that are not 0 are between \<open>10\<^sup>-\<^sup>9\<close> and \<open>10\<^sup>1\<^sup>0\<close>,
  far from the least and the greatest exponent of the format, which are not modelled.
\<close>

definition roundHalfEven :: "rat \<Rightarrow> int" where
  "roundHalfEven y =
     (let f = \<lfloor>y\<rfloor>; r = y - of_int f
      in if r < 1 / 2 then f else if 1 / 2 < r then f + 1 else if even f then f else f + 1)"

definition ulp :: "rat \<Rightarrow> rat" where
  "ulp x = (if 1 \<le> \<bar>x\<bar> then 2 ^ nat (bitlen \<lfloor>\<bar>x\<bar>\<rfloor> - 1) / 2 ^ 52
            else 1 / 2 ^ (ceillog2 (nat \<lceil>1 / \<bar>x\<bar>\<rceil>) + 52))"

definition float64 :: "rat \<Rightarrow> rat" where
  "float64 x = (if x = 0 then 0 else of_int (roundHalfEven (x / ulp x)) * ulp x)"

text \<open>The integer operators \<^verbatim>\<open>/\<close> and \<^verbatim>\<open>%\<close> of Go, which round the quotient towards zero.\<close>

definition quo :: "int \<Rightarrow> int \<Rightarrow> int" where
  "quo a b = sgn a * sgn b * (\<bar>a\<bar> div \<bar>b\<bar>)"

definition rem :: "int \<Rightarrow> int \<Rightarrow> int" where
  "rem a b = a - quo a b * b"

text \<open>
  \<^verbatim>\<open>func (d Duration) Seconds() float64\<close>:
  \<^verbatim>\<open>sec := d / Second; nsec := d % Second; return float64(sec) + float64(nsec)/1e9\<close>.
\<close>

definition Seconds :: "int \<Rightarrow> rat" where
  "Seconds d =
     (let sec = quo d Second; nsec = rem d Second
      in float64 (float64 (of_int sec) + float64 (float64 (of_int nsec) / 1000000000)))"

text \<open>The conversion \<^verbatim>\<open>int(f)\<close> of a float drops the fraction (towards zero).\<close>

definition intOfFloat :: "rat \<Rightarrow> int" where
  "intOfFloat f = (if f < 0 then \<lceil>f\<rceil> else \<lfloor>f\<rfloor>)"

text \<open>\<^verbatim>\<open>int(d.Seconds())\<close>\<close>

definition intSeconds :: "int \<Rightarrow> int" where
  "intSeconds d = intOfFloat (Seconds d)"

subsection \<open>Entries and the shared state\<close>

record DelayEntry =
  ID :: int
  Name :: string
  DateTimeAdded :: time
  TotalDelaySecs :: int
  IsCompleted :: bool
  CompletedTime :: "time option"

record ApiStatusResponse =
  respID :: int
  respName :: string
  respDateTimeAdded :: time
  respTotalDelaySecs :: int
  Status :: string
  ElapsedTimeSecs :: int
  RemainingTimeSecs :: int
  respCompletedTime :: "time option"

text \<open>
  The globals. \<^verbatim>\<open>nextEntryID\<close> is a 64-bit \<^verbatim>\<open>int\<close>: \<^verbatim>\<open>nextEntryID++\<close> wraps around
  from the greatest to the least of them.
\<close>

record globals =
  history :: "int \<rightharpoonup> DelayEntry"
  historyOrder :: "int list"
  nextEntryID :: int

text \<open>\<^verbatim>\<open>maxHistory\<close> is a variable of the package that nothing assigns after its declaration.\<close>

definition maxHistory :: nat where
  "maxHistory = 10"

text \<open>The globals when the program starts.\<close>

definition initial :: globals where
  "initial = \<lparr>history = Map.empty, historyOrder = [], nextEntryID = 1\<rparr>"

datatype error = InvalidDelay | NotFound | InvalidURL | MethodNotAllowed

subsection \<open>The status of an entry\<close>

definition expectedCompletionTime :: "DelayEntry \<Rightarrow> time" where
  "expectedCompletionTime entry =
     Add (DateTimeAdded entry) (secondsDuration (TotalDelaySecs entry))"

text \<open>
  \<^verbatim>\<open>getStatusDetails\<close> reads the clock twice: \<open>now1\<close> is the reading of
  \<^verbatim>\<open>time.Since\<close>, \<open>now2\<close> the one of \<^verbatim>\<open>time.Now\<close> in the condition.
\<close>

definition getStatusDetails :: "DelayEntry \<Rightarrow> time \<Rightarrow> time \<Rightarrow> int \<times> string \<times> string" where
  "getStatusDetails entry now1 now2 =
     (let elapsedDuration = Sub now1 (DateTimeAdded entry);
          elapsedSecs = intSeconds elapsedDuration
      in if IsCompleted entry \<or> After now2 (expectedCompletionTime entry)
         then (TotalDelaySecs entry, ''completed'', ''status-complete'')
         else (elapsedSecs, ''in-progress'', ''status-progress''))"

subsection \<open>The registry\<close>

text \<open>
  The loop of \<^verbatim>\<open>keepHistoryBounded\<close>: while the order is longer than
  \<^verbatim>\<open>maxHistory\<close>, drop its first ID and delete that ID from the table. An empty order
  is never longer than \<^verbatim>\<open>maxHistory\<close>, so \<^verbatim>\<open>historyOrder[0]\<close> is always in range.
\<close>

fun evict :: "int list \<Rightarrow> (int \<rightharpoonup> DelayEntry) \<Rightarrow> int list \<times> (int \<rightharpoonup> DelayEntry)" where
  "evict [] h = ([], h)"
| "evict (oldestID # rest) h =
     (if length (oldestID # rest) > maxHistory
      then evict rest (h(oldestID := None))
      else (oldestID # rest, h))"

definition keepHistoryBounded :: "globals \<Rightarrow> globals" where
  "keepHistoryBounded g =
     (if length (historyOrder g) \<le> maxHistory then g
      else (case evict (historyOrder g) (history g) of
              (order, h) \<Rightarrow> g\<lparr>history := h, historyOrder := order\<rparr>))"

datatype http_method = MethodGet | MethodPost | MethodOther

text \<open>
  What \<^verbatim>\<open>startHandler\<close> answers when it does not fail: the form, or, after a job was
  created, the redirect; \<open>Started jobID delay\<close> carries the arguments of the timer it
  started with \<^verbatim>\<open>go runTimer(jobID, delay)\<close>.
\<close>

datatype start_reply = FormPage | Started int int

text \<open>
  \<open>delay\<close> is the result of \<^verbatim>\<open>strconv.Atoi\<close> on the form value (\<open>None\<close> when it
  returns an error), \<open>now\<close> the clock when the entry is built.
\<close>

definition startHandler ::
  "http_method \<Rightarrow> int option \<Rightarrow> string \<Rightarrow> time \<Rightarrow> globals \<Rightarrow> (error + start_reply) \<times> globals" where
  "startHandler m delay jobName now g =
     (case m of
        MethodGet \<Rightarrow> (Inr FormPage, g)
      | MethodPost \<Rightarrow>
          (case delay of
             None \<Rightarrow> (Inl InvalidDelay, g)
           | Some d \<Rightarrow>
               if d < 1 then (Inl InvalidDelay, g)
               else
                 let newEntry = \<lparr>ID = nextEntryID g, Name = jobName, DateTimeAdded = now,
                                 TotalDelaySecs = d, IsCompleted = False, CompletedTime = None\<rparr>;
                     g1 = g\<lparr>history := (history g)(nextEntryID g \<mapsto> newEntry)\<rparr>;
                     g2 = g1\<lparr>historyOrder := historyOrder g1 @ [nextEntryID g1]\<rparr>;
                     g3 = keepHistoryBounded g2;
                     jobID = nextEntryID g3;
                     g4 = g3\<lparr>nextEntryID := wrap64 (nextEntryID g3 + 1)\<rparr>
                 in (Inr (Started jobID d), g4))
      | MethodOther \<Rightarrow> (Inl MethodNotAllowed, g))"

text \<open>
  \<^verbatim>\<open>runTimer\<close> after its sleep: \<open>now\<close> is the clock read under the lock. The delay
  only decides when this runs.
\<close>

definition runTimer :: "int \<Rightarrow> time \<Rightarrow> globals \<Rightarrow> globals" where
  "runTimer jobID now g =
     (case history g jobID of
        None \<Rightarrow> g
      | Some entry \<Rightarrow>
          g\<lparr>history := (history g)(jobID \<mapsto> entry\<lparr>IsCompleted := True, CompletedTime := Some now\<rparr>)\<rparr>)"

text \<open>
  \<^verbatim>\<open>apiStatusDetailHandler\<close>. \<open>parsed\<close> is the result of
  \<^verbatim>\<open>parseAPIJobIDFromPath\<close> (\<open>None\<close> when it returns an error); the handler copies
  the entry out under the lock and derives the status after releasing it. The globals are
  returned with the answer, as for the handlers that write them.
\<close>

definition apiStatusDetailHandler ::
  "int option \<Rightarrow> time \<Rightarrow> time \<Rightarrow> globals \<Rightarrow> (error + ApiStatusResponse) \<times> globals" where
  "apiStatusDetailHandler parsed now1 now2 g =
     (case parsed of
        None \<Rightarrow> (Inl InvalidURL, g)
      | Some jobID \<Rightarrow>
          (case history g jobID of
             None \<Rightarrow> (Inl NotFound, g)
           | Some entry \<Rightarrow>
               (case getStatusDetails entry now1 now2 of
                  (elapsedSecs, currentStatus, statusClass) \<Rightarrow>
                    let remainingSecs = wrap64 (TotalDelaySecs entry - elapsedSecs);
                        remainingSecs = (if remainingSecs < 0 then 0 else remainingSecs)
                    in (Inr \<lparr>respID = ID entry, respName = Name entry,
                              respDateTimeAdded = DateTimeAdded entry,
                              respTotalDelaySecs = TotalDelaySecs entry,
                              Status = currentStatus,
                              ElapsedTimeSecs = elapsedSecs,
                              RemainingTimeSecs = remainingSecs,
                              respCompletedTime = CompletedTime entry\<rparr>, g))))"

text \<open>
  \<^verbatim>\<open>statusDetailHandler\<close> writes a page; the model keeps the values the page is
  formatted from. The remaining time is on the page only while the status is
  \<^verbatim>\<open>in-progress\<close>.
\<close>

record StatusPage =
  pageJobID :: int
  pageName :: string
  pageStatus :: string
  pageRemainingSecs :: "int option"
  pageTotalDelaySecs :: int
  pageTimeAdded :: time
  pageCompletedTime :: "time option"

definition statusDetailHandler ::
  "int option \<Rightarrow> time \<Rightarrow> time \<Rightarrow> globals \<Rightarrow> (error + StatusPage) \<times> globals" where
  "statusDetailHandler parsed now1 now2 g =
     (case parsed of
        None \<Rightarrow> (Inl InvalidURL, g)
      | Some jobID \<Rightarrow>
          (case history g jobID of
             None \<Rightarrow> (Inl NotFound, g)
           | Some entry \<Rightarrow>
               (case getStatusDetails entry now1 now2 of
                  (elapsedSecs, currentStatus, statusClass) \<Rightarrow>
                    let remainingSecs = wrap64 (TotalDelaySecs entry - elapsedSecs);
                        remainingSecs = (if remainingSecs < 0 then 0 else remainingSecs)
                    in (Inr \<lparr>pageJobID = jobID, pageName = Name entry,
                              pageStatus = currentStatus,
                              pageRemainingSecs =
                                (if currentStatus = ''in-progress'' then Some remainingSecs else None),
                              pageTotalDelaySecs = TotalDelaySecs entry,
                              pageTimeAdded = DateTimeAdded entry,
                              pageCompletedTime = CompletedTime entry\<rparr>, g))))"

subsection \<open>Runs of the program\<close>

text \<open>
  The requests and timer completions that reach the globals, in the order in which they
  take the lock: a request to \<^verbatim>\<open>/start\<close>, the completion of a timer, and the two
  detail requests.
\<close>

datatype event =
    Start http_method "int option" string time
  | TimerDone int time
  | ApiDetail "int option" time time
  | PageDetail "int option" time time

fun step :: "event \<Rightarrow> globals \<Rightarrow> globals" where
  "step (Start m delay jobName now) g = snd (startHandler m delay jobName now g)"
| "step (TimerDone jobID now) g = runTimer jobID now g"
| "step (ApiDetail parsed now1 now2) g = snd (apiStatusDetailHandler parsed now1 now2 g)"
| "step (PageDetail parsed now1 now2) g = snd (statusDetailHandler parsed now1 now2 g)"

fun run :: "event list \<Rightarrow> globals \<Rightarrow> globals" where
  "run [] g = g"
| "run (e # es) g = run es (step e g)"

text \<open>The job IDs that one event, and a run, give out: one for each job created.\<close>

fun created :: "event \<Rightarrow> globals \<Rightarrow> int list" where
  "created (Start m delay jobName now) g =
     (case fst (startHandler m delay jobName now g) of
        Inr (Started jobID d) \<Rightarrow> [jobID]
      | _ \<Rightarrow> [])"
| "created _ g = []"

fun issued :: "event list \<Rightarrow> globals \<Rightarrow> int list" where
  "issued [] g = []"
| "issued (e # es) g = created e g @ issued es (step e g)"

subsection \<open>Predicates and example values\<close>

text \<open>The table and the order hold the same IDs, and the order holds each once.\<close>

definition consistent :: "globals \<Rightarrow> bool" where
  "consistent g \<longleftrightarrow> dom (history g) = set (historyOrder g) \<and> distinct (historyOrder g)"

text \<open>
  The value of the counter after \<open>i\<close> increments: it starts at 1, and every increment
  wraps around.
\<close>

definition issuedID :: "nat \<Rightarrow> int" where
  "issuedID i = wrap64 (int i + 1)"

text \<open>
  What a run keeps true of the globals, where \<open>ids\<close> are the job IDs given out so far, in
  the order of creation: they are the values of the counter, in turn, and the next ID is
  the one after them; the order holds the last \<^verbatim>\<open>maxHistory\<close> of them, the table has an
  entry for exactly these, and every entry sits under its own ID and has a delay of at
  least one second.
\<close>

definition tracked :: "globals \<Rightarrow> int list \<Rightarrow> bool" where
  "tracked g ids \<longleftrightarrow>
     nextEntryID g = issuedID (length ids) \<and>
     ids = map issuedID [0..<length ids] \<and>
     historyOrder g = drop (length ids - maxHistory) ids \<and>
     dom (history g) = set (historyOrder g) \<and>
     (\<forall>k e. history g k = Some e \<longrightarrow> ID e = k \<and> 1 \<le> TotalDelaySecs e)"

text \<open>A job of five seconds created when the clock reads 0, and the globals that hold it.\<close>

definition tea :: DelayEntry where
  "tea = \<lparr>ID = 1, Name = ''tea'', DateTimeAdded = 0, TotalDelaySecs = 5,
          IsCompleted = False, CompletedTime = None\<rparr>"

definition oneJob :: globals where
  "oneJob = \<lparr>history = [1 \<mapsto> tea], historyOrder = [1], nextEntryID = 2\<rparr>"

text \<open>A job whose delay, 9223372037 seconds, is more nanoseconds than a duration holds.\<close>

definition longJob :: DelayEntry where
  "longJob = \<lparr>ID = 1, Name = ''long'', DateTimeAdded = 0, TotalDelaySecs = 9223372037,
              IsCompleted = False, CompletedTime = None\<rparr>"

text \<open>
  A job of 16777217 seconds (a little more than 194 days) created when the clock reads 0,
  and the globals that hold it.
\<close>

definition slowJob :: DelayEntry where
  "slowJob = \<lparr>ID = 1, Name = ''slow'', DateTimeAdded = 0, TotalDelaySecs = 16777217,
              IsCompleted = False, CompletedTime = None\<rparr>"

definition slowGlobals :: globals where
  "slowGlobals = \<lparr>history = [1 \<mapsto> slowJob], historyOrder = [1], nextEntryID = 2\<rparr>"

text \<open>Twelve requests that each create a job of five seconds.\<close>

definition twelve :: "event list" where
  "twelve = replicate 12 (Start MethodPost (Some 5) ''tea'' 0)"

text \<open>As many such requests as there are positive 64-bit numbers, and one more.\<close>

definition overflowing :: "event list" where
  "overflowing = replicate (2 ^ 63) (Start MethodPost (Some 5) ''tea'' 0)"

section \<open>Properties\<close>

subsection \<open>The rounding of floats\<close>

lemma roundHalfEven_ge:
  assumes "of_int n \<le> y"
  shows "n \<le> roundHalfEven y"
proof -
  from assms have "n \<le> \<lfloor>y\<rfloor>" by (simp add: le_floor_iff)
  then show ?thesis by (simp add: roundHalfEven_def Let_def)
qed

lemma roundHalfEven_less:
  assumes "y < of_int n - 1 / 2"
  shows "roundHalfEven y < n"
proof -
  have f: "of_int \<lfloor>y\<rfloor> \<le> y" by simp
  with assms have "of_int \<lfloor>y\<rfloor> < (of_int n :: rat)" by linarith
  then have lt: "\<lfloor>y\<rfloor> < n" by simp
  show ?thesis
  proof (cases "y - of_int \<lfloor>y\<rfloor> < 1 / 2")
    case True
    with lt show ?thesis by (simp add: roundHalfEven_def Let_def)
  next
    case False
    with assms have "of_int \<lfloor>y\<rfloor> + 1 < (of_int n :: rat)" by linarith
    then have "of_int (\<lfloor>y\<rfloor> + 1) < (of_int n :: rat)" by simp
    then have "\<lfloor>y\<rfloor> + 1 < n" by (simp only: of_int_less_iff)
    with lt show ?thesis by (simp add: roundHalfEven_def Let_def)
  qed
qed

lemma roundHalfEven_of_int: "roundHalfEven (of_int n) = n"
  by (simp add: roundHalfEven_def Let_def)

lemma roundHalfEven_error: "\<bar>of_int (roundHalfEven y) - y\<bar> \<le> 1 / 2"
proof -
  have "of_int \<lfloor>y\<rfloor> \<le> y" "y < of_int \<lfloor>y\<rfloor> + 1" by linarith+
  then show ?thesis by (auto simp add: roundHalfEven_def Let_def)
qed

lemma ceillog2_ge_1: "2 \<le> n \<Longrightarrow> 1 \<le> ceillog2 n"
  by (subst ceillog2_ge_iff) simp_all

lemma ulp_power:
  assumes "x \<noteq> 0" and "\<bar>x\<bar> < 2 ^ m" and "m \<le> 53"
  shows "\<exists>j. 53 \<le> j + m \<and> ulp x = 1 / 2 ^ j"
proof (cases "1 \<le> \<bar>x\<bar>")
  case True
  let ?F = "\<lfloor>\<bar>x\<bar>\<rfloor>"
  let ?a = "nat (bitlen ?F - 1)"
  from True have F: "0 < ?F" by simp
  from bitlen_bounds [OF F] have "2 ^ ?a \<le> ?F" by simp
  moreover have "?F < 2 ^ m"
  proof -
    have "of_int ?F \<le> \<bar>x\<bar>" by simp
    with assms(2) have "of_int ?F < (2 ^ m :: rat)" by linarith
    then show ?thesis by (metis of_int_less_numeral_power_cancel_iff)
  qed
  ultimately have "(2 :: int) ^ ?a < 2 ^ m" by linarith
  then have am: "?a < m" by simp
  with assms(3) have a52: "?a \<le> 52" by simp
  then have "(2 :: rat) ^ (52 - ?a) = 2 ^ 52 / 2 ^ ?a" by (simp add: power_diff)
  then have "ulp x = 1 / 2 ^ (52 - ?a)" using True by (simp add: ulp_def)
  moreover from am a52 have "53 \<le> (52 - ?a) + m" by simp
  ultimately show ?thesis by blast
next
  case False
  let ?n = "nat \<lceil>1 / \<bar>x\<bar>\<rceil>"
  from False assms(1) have "1 < 1 / \<bar>x\<bar>" by simp
  then have "2 \<le> \<lceil>1 / \<bar>x\<bar>\<rceil>" by (simp add: le_ceiling_iff)
  then have n: "2 \<le> ?n" by arith
  then have "1 \<le> ceillog2 ?n" by (rule ceillog2_ge_1)
  then have "53 \<le> (ceillog2 ?n + 52) + m" by simp
  moreover from False have "ulp x = 1 / 2 ^ (ceillog2 ?n + 52)" by (simp add: ulp_def)
  ultimately show ?thesis by blast
qed

lemma float64_grid:
  assumes "x \<noteq> 0" and "ulp x = 1 / 2 ^ j"
  shows "float64 x = of_int (roundHalfEven (x * 2 ^ j)) / 2 ^ j"
  using assms by (simp add: float64_def)

lemma float64_ge_int:
  assumes "\<bar>x\<bar> < 2 ^ 53" and "of_int a \<le> x"
  shows "of_int a \<le> float64 x"
proof (cases "x = 0")
  case True
  with assms(2) show ?thesis by (simp add: float64_def)
next
  case False
  from ulp_power [OF False assms(1)] obtain j where j: "ulp x = 1 / 2 ^ j" by auto
  from assms(2) have "of_int (a * 2 ^ j) \<le> x * 2 ^ j" by simp
  then have "a * 2 ^ j \<le> roundHalfEven (x * 2 ^ j)" by (rule roundHalfEven_ge)
  then have "of_int (a * 2 ^ j) \<le> (of_int (roundHalfEven (x * 2 ^ j)) :: rat)"
    by (simp only: of_int_le_iff)
  then have "of_int a * 2 ^ j \<le> (of_int (roundHalfEven (x * 2 ^ j)) :: rat)" by simp
  then have "of_int a \<le> (of_int (roundHalfEven (x * 2 ^ j)) :: rat) / 2 ^ j"
    by (simp add: pos_le_divide_eq)
  then show ?thesis by (simp only: float64_grid [OF False j])
qed

lemma float64_less_int:
  assumes "x \<noteq> 0" and "ulp x = 1 / 2 ^ j" and "x < of_int b - 1 / 2 ^ Suc j"
  shows "float64 x < of_int b"
proof -
  have "x * 2 ^ j < (of_int b - 1 / 2 ^ Suc j) * 2 ^ j"
    using assms(3) by (simp only: mult_less_cancel_right_pos zero_less_power zero_less_numeral)
  also have "\<dots> = of_int (b * 2 ^ j) - 1 / 2" by (simp add: algebra_simps)
  finally have "roundHalfEven (x * 2 ^ j) < b * 2 ^ j" by (rule roundHalfEven_less)
  then have "(of_int (roundHalfEven (x * 2 ^ j)) :: rat) < of_int (b * 2 ^ j)"
    by (simp only: of_int_less_iff)
  then have "(of_int (roundHalfEven (x * 2 ^ j)) :: rat) < of_int b * 2 ^ j" by simp
  then have "(of_int (roundHalfEven (x * 2 ^ j)) :: rat) / 2 ^ j < of_int b"
    by (simp add: pos_divide_less_eq)
  then show ?thesis by (simp only: float64_grid [OF assms(1,2)])
qed

lemma float64_error:
  assumes "x \<noteq> 0" and "ulp x = 1 / 2 ^ j"
  shows "\<bar>float64 x - x\<bar> \<le> 1 / 2 ^ Suc j"
proof -
  let ?r = "of_int (roundHalfEven (x * 2 ^ j)) :: rat"
  have "\<bar>?r - x * 2 ^ j\<bar> \<le> 1 / 2" by (rule roundHalfEven_error)
  then have "\<bar>?r - x * 2 ^ j\<bar> / 2 ^ j \<le> (1 / 2) / 2 ^ j"
    by (simp only: divide_le_cancel) simp
  moreover have "\<bar>?r - x * 2 ^ j\<bar> / 2 ^ j = \<bar>?r / 2 ^ j - x\<bar>"
  proof -
    have "\<bar>?r - x * 2 ^ j\<bar> / 2 ^ j = \<bar>(?r - x * 2 ^ j) / 2 ^ j\<bar>" by simp
    also have "(?r - x * 2 ^ j) / 2 ^ j = ?r / 2 ^ j - x" by (simp add: diff_divide_distrib)
    finally show ?thesis .
  qed
  ultimately show ?thesis by (simp add: float64_grid [OF assms])
qed

lemma float64_of_int:
  assumes "\<bar>n\<bar> < 2 ^ 53"
  shows "float64 (of_int n) = of_int n"
proof (cases "n = 0")
  case True
  then show ?thesis by (simp add: float64_def)
next
  case False
  then have nz: "(of_int n :: rat) \<noteq> 0" by simp
  from assms have "\<bar>of_int n :: rat\<bar> < 2 ^ 53"
    by (metis of_int_abs of_int_less_numeral_power_cancel_iff)
  from ulp_power [OF nz this] obtain j where j: "ulp (of_int n) = 1 / 2 ^ j" by auto
  have "of_int n * (2 :: rat) ^ j = of_int (n * 2 ^ j)" by simp
  then have "roundHalfEven (of_int n * 2 ^ j) = n * 2 ^ j"
    by (simp only: roundHalfEven_of_int)
  then show ?thesis by (simp add: float64_grid [OF nz j])
qed

lemma quo_rem_nonneg:
  assumes "0 \<le> d"
  shows "quo d Second = d div Second" and "rem d Second = d mod Second"
proof -
  show q: "quo d Second = d div Second"
    using assms by (cases "d = 0") (simp_all add: quo_def Second_def)
  show "rem d Second = d mod Second"
    by (simp add: rem_def q minus_div_mult_eq_mod)
qed

lemma inverse_power_le:
  assumes "i \<le> j"
  shows "1 / 2 ^ j \<le> (1 :: rat) / 2 ^ i"
  using assms by (simp add: frac_le power_increasing)

lemma float64_fraction:
  assumes "0 \<le> n" and "n < 1000000000"
  shows "0 \<le> float64 (of_int n / 1000000000)"
    and "float64 (of_int n / 1000000000) \<le> 999999999 / 1000000000 + 1 / 2 ^ 54"
proof -
  let ?x = "of_int n / 1000000000 :: rat"
  from assms have x0: "0 \<le> ?x" by simp
  from assms have "n \<le> 999999999" by simp
  then have "(of_int n :: rat) \<le> 999999999" by (metis of_int_le_iff of_int_numeral)
  then have x1: "?x \<le> 999999999 / 1000000000" by simp
  then have lt: "\<bar>?x\<bar> < 2 ^ 0" using x0 by simp
  then have "\<bar>?x\<bar> < 2 ^ 53" by simp
  from float64_ge_int [OF this, of 0] x0 show "0 \<le> float64 ?x" by simp
  show "float64 ?x \<le> 999999999 / 1000000000 + 1 / 2 ^ 54"
  proof (cases "?x = 0")
    case True
    then show ?thesis by (simp add: float64_def)
  next
    case False
    from ulp_power [OF False lt] obtain j where j: "53 \<le> j" "ulp ?x = 1 / 2 ^ j" by auto
    from float64_error [OF False j(2)] have "float64 ?x \<le> ?x + 1 / 2 ^ Suc j" by linarith
    moreover from j(1) have "1 / 2 ^ Suc j \<le> (1 :: rat) / 2 ^ 54"
      by (intro inverse_power_le) simp
    ultimately show ?thesis using x1 by linarith
  qed
qed

lemma Seconds_bounds:
  assumes "0 \<le> d" and "d < 2 ^ 24 * Second"
  shows "of_int (d div Second) \<le> Seconds d" and "Seconds d < of_int (d div Second) + 1"
proof -
  let ?sec = "d div Second" and ?nsec = "d mod Second"
  let ?q = "float64 (of_int ?nsec / 1000000000)"
  let ?y = "of_int ?sec + ?q :: rat"
  have sec0: "0 \<le> ?sec" using assms(1) by (simp add: Second_def pos_imp_zdiv_nonneg_iff)
  have sec1: "?sec < 2 ^ 24" using assms(2) by (simp add: Second_def div_less_iff_less_mult)
  have n: "0 \<le> ?nsec" "?nsec < 1000000000" by (simp_all add: Second_def)
  have fsec: "float64 (of_int ?sec) = of_int ?sec"
    using sec0 sec1 by (intro float64_of_int) simp
  have fnsec: "float64 (of_int ?nsec) = of_int ?nsec"
    using n by (intro float64_of_int) simp
  have S: "Seconds d = float64 ?y"
    by (simp add: Seconds_def Let_def quo_rem_nonneg [OF assms(1)] fsec fnsec)
  note q = float64_fraction [OF n]
  have y0: "of_int ?sec \<le> ?y" using q(1) by simp
  have y1: "?y \<le> of_int ?sec + 999999999 / 1000000000 + 1 / 2 ^ 54" using q(2) by simp
  have secr: "(of_int ?sec :: rat) + 1 \<le> 2 ^ 24"
  proof -
    from sec1 have "?sec + 1 \<le> 2 ^ 24" by simp
    then have "(of_int (?sec + 1) :: rat) \<le> of_int (2 ^ 24)" by (simp only: of_int_le_iff)
    then show ?thesis by simp
  qed
  have secr0: "(0 :: rat) \<le> of_int ?sec" using sec0 by simp
  have ylt: "\<bar>?y\<bar> < 2 ^ 24" using y0 y1 secr secr0 by simp
  then have "\<bar>?y\<bar> < 2 ^ 53" by simp
  from float64_ge_int [OF this y0] show "of_int ?sec \<le> Seconds d" by (simp only: S)
  show "Seconds d < of_int ?sec + 1"
  proof (cases "?y = 0")
    case True
    with secr0 show ?thesis by (simp add: S float64_def)
  next
    case False
    from ulp_power [OF False ylt] obtain j where j: "29 \<le> j" "ulp ?y = 1 / 2 ^ j" by auto
    from j(1) have p: "1 / 2 ^ Suc j \<le> (1 :: rat) / 2 ^ 30" by (intro inverse_power_le) simp
    have c: "(999999999 / 1000000000 + 1 / 2 ^ 54 :: rat) < 1 - 1 / 2 ^ 30" by simp
    from y1 p c have "?y < of_int ?sec + 1 - 1 / 2 ^ Suc j" by linarith
    then have "?y < of_int (?sec + 1) - 1 / 2 ^ Suc j" by simp
    from float64_less_int [OF False j(2) this] show ?thesis by (simp add: S)
  qed
qed

text \<open>
  Below \<open>2\<^sup>2\<^sup>4\<close> seconds the conversion is exact: the whole seconds, rounded down.
\<close>

lemma intSeconds_exact:
  assumes "0 \<le> d" and "d < 2 ^ 24 * Second"
  shows "intSeconds d = d div Second"
proof -
  note b = Seconds_bounds [OF assms]
  have "0 \<le> d div Second" using assms(1) by (simp add: Second_def pos_imp_zdiv_nonneg_iff)
  then have "(0 :: rat) \<le> of_int (d div Second)" by simp
  with b(1) have "\<not> Seconds d < 0" by linarith
  moreover from b have "\<lfloor>Seconds d\<rfloor> = d div Second" by (intro floor_unique) simp_all
  ultimately show ?thesis by (simp add: intSeconds_def intOfFloat_def)
qed



subsection \<open>Durations\<close>

lemma wrap64_id: "- (2 ^ 63) \<le> x \<Longrightarrow> x < 2 ^ 63 \<Longrightarrow> wrap64 x = x"
  by (simp add: wrap64_def)






lemma wrap64_shift: "wrap64 (x + 2 ^ 64 * m) = wrap64 x"
proof -
  have "x + 2 ^ 64 * m + 2 ^ 63 = (x + 2 ^ 63) + 2 ^ 64 * m" by (simp only: ac_simps)
  then have "(x + 2 ^ 64 * m + 2 ^ 63) mod 2 ^ 64 = (x + 2 ^ 63) mod 2 ^ 64"
    by (simp only: mod_mult_self2)
  then show ?thesis by (simp only: wrap64_def)
qed


subsection \<open>The status of a job\<close>





text \<open>
  Why the delay has to fit a duration: the product for 9223372037 seconds wraps around to
  a negative duration, the expected completion lies before the creation, and one second
  after its creation the job is reported \<^verbatim>\<open>completed\<close>.
\<close>

lemma status_of_delay_beyond_duration:
  "\<not> IsCompleted longJob \<and>
   1000000000 < DateTimeAdded longJob + TotalDelaySecs longJob * Second \<and>
   secondsDuration (TotalDelaySecs longJob) = - 9223372036709551616 \<and>
   getStatusDetails longJob 1000000000 1000000000 = (9223372037, ''completed'', ''status-complete'')"
  by (simp add: longJob_def getStatusDetails_def After_def Let_def expectedCompletionTime_def
      Add_def secondsDuration_def wrap64_def Second_def)

subsection \<open>Elapsed and remaining seconds\<close>






subsection \<open>Reading the status changes nothing\<close>

lemma apiStatusDetailHandler_globals:
  "snd (apiStatusDetailHandler parsed now1 now2 g) = g"
  by (simp add: apiStatusDetailHandler_def Let_def split: option.splits prod.splits)

lemma statusDetailHandler_globals:
  "snd (statusDetailHandler parsed now1 now2 g) = g"
  by (simp add: statusDetailHandler_def Let_def split: option.splits prod.splits)

text \<open>
  C9. The status is a function of the entry and of the clock: \<^verbatim>\<open>getStatusDetails\<close>
  gives the same elapsed seconds, status and class for two entries that agree on
  \<^verbatim>\<open>DateTimeAdded\<close>, \<^verbatim>\<open>TotalDelaySecs\<close> and \<^verbatim>\<open>IsCompleted\<close> at the same readings of
  the clock, so two calls with the same job and the same time give the same result, and so
  do two detail requests. Deriving the status writes nothing: both detail handlers leave
  the globals, and with them the job's entry, as they were.
\<close>

theorem status_derivation_pure:
  "(DateTimeAdded e = DateTimeAdded e' \<and> TotalDelaySecs e = TotalDelaySecs e' \<and>
    IsCompleted e = IsCompleted e' \<longrightarrow>
      getStatusDetails e now1 now2 = getStatusDetails e' now1 now2) \<and>
   (g = g' \<and> parsed = parsed' \<and> now1 = now1' \<and> now2 = now2' \<longrightarrow>
      fst (apiStatusDetailHandler parsed now1 now2 g) =
      fst (apiStatusDetailHandler parsed' now1' now2' g')) \<and>
   snd (apiStatusDetailHandler parsed now1 now2 g) = g \<and>
   snd (statusDetailHandler parsed now1 now2 g) = g"
  by (simp add: apiStatusDetailHandler_globals statusDetailHandler_globals getStatusDetails_def
      expectedCompletionTime_def)

theorem status_derivation_pure_witness:
  "DateTimeAdded tea = DateTimeAdded (tea\<lparr>Name := ''coffee''\<rparr>) \<and>
   TotalDelaySecs tea = TotalDelaySecs (tea\<lparr>Name := ''coffee''\<rparr>) \<and>
   IsCompleted tea = IsCompleted (tea\<lparr>Name := ''coffee''\<rparr>) \<and>
   getStatusDetails tea 2500000000 2500000000 =
     getStatusDetails (tea\<lparr>Name := ''coffee''\<rparr>) 2500000000 2500000000 \<and>
   getStatusDetails tea 2500000000 2500000000 = (2, ''in-progress'', ''status-progress'') \<and>
   snd (apiStatusDetailHandler (Some 1) 2500000000 2500000000 oneJob) = oneJob \<and>
   history (snd (apiStatusDetailHandler (Some 1) 2500000000 2500000000 oneJob)) 1 = Some tea"
proof -
  have "intSeconds 2500000000 = 2500000000 div Second"
    by (rule intSeconds_exact) (simp_all add: Second_def)
  then have i: "intSeconds 2500000000 = 2" by (simp add: Second_def)
  have v: "getStatusDetails tea 2500000000 2500000000 = (2, ''in-progress'', ''status-progress'')"
    by (simp add: tea_def getStatusDetails_def After_def Let_def expectedCompletionTime_def
        Add_def secondsDuration_def wrap64_def Second_def Sub_def i
        minDuration_def maxDuration_def)
  have h: "history oneJob 1 = Some tea" by (simp add: oneJob_def)
  from status_derivation_pure [of tea "tea\<lparr>Name := ''coffee''\<rparr>" 2500000000 2500000000
      oneJob oneJob "Some 1" "Some 1" 2500000000 2500000000] v h
  show ?thesis by simp
qed

subsection \<open>The completion of a timer\<close>

text \<open>
  C2, as amended. The body of \<^verbatim>\<open>runTimer\<close> has no test for an entry that is already
  completed: for every job ID in the table it sets \<^verbatim>\<open>IsCompleted\<close> to true and
  \<^verbatim>\<open>CompletedTime\<close> to the time of this completion, and changes no other entry, nor the
  order, nor the next ID. A second completion of the same job therefore keeps
  \<^verbatim>\<open>IsCompleted\<close> true and overwrites \<^verbatim>\<open>CompletedTime\<close> with its own time: two
  completions in a row leave the globals as the later one alone does.
\<close>

theorem runTimer_overwrites:
  "(history g jobID = Some e \<longrightarrow>
      history (runTimer jobID now g) jobID = Some (e\<lparr>IsCompleted := True, CompletedTime := Some now\<rparr>)) \<and>
   (k \<noteq> jobID \<longrightarrow> history (runTimer jobID now g) k = history g k) \<and>
   historyOrder (runTimer jobID now g) = historyOrder g \<and>
   nextEntryID (runTimer jobID now g) = nextEntryID g \<and>
   runTimer jobID now' (runTimer jobID now g) = runTimer jobID now' g"
  by (cases "history g jobID") (simp_all add: runTimer_def)

theorem runTimer_overwrites_witness:
  "history oneJob 1 = Some tea \<and>
   history (runTimer 1 5000000000 oneJob) 1 =
     Some (tea\<lparr>IsCompleted := True, CompletedTime := Some 5000000000\<rparr>) \<and>
   (2::int) \<noteq> 1 \<and> history (runTimer 1 5000000000 oneJob) 2 = history oneJob 2 \<and>
   runTimer 1 7000000000 (runTimer 1 5000000000 oneJob) = runTimer 1 7000000000 oneJob"
  using runTimer_overwrites [of oneJob 1 tea 5000000000 2 7000000000]
  by (simp add: oneJob_def)

text \<open>
  C2 as it is written asks a second completion to keep the first time. The job \<open>tea\<close>,
  completed when the clock reads 5 seconds and again at 7 seconds, ends with 7 seconds as
  its \<^verbatim>\<open>CompletedTime\<close>: the second completion is not a no-op.
\<close>

theorem runTimer_second_completion_counterexample:
  "map_option IsCompleted (history (runTimer 1 5000000000 oneJob) 1) = Some True \<and>
   map_option CompletedTime (history (runTimer 1 5000000000 oneJob) 1) = Some (Some 5000000000) \<and>
   map_option CompletedTime (history (runTimer 1 7000000000 (runTimer 1 5000000000 oneJob)) 1)
     = Some (Some 7000000000) \<and>
   runTimer 1 7000000000 (runTimer 1 5000000000 oneJob) \<noteq> runTimer 1 5000000000 oneJob"
proof -
  have a: "history (runTimer 1 5000000000 oneJob) 1 =
      Some (tea\<lparr>IsCompleted := True, CompletedTime := Some 5000000000\<rparr>)"
    by (simp add: runTimer_def oneJob_def)
  have b: "history (runTimer 1 7000000000 (runTimer 1 5000000000 oneJob)) 1 =
      Some (tea\<lparr>IsCompleted := True, CompletedTime := Some 7000000000\<rparr>)"
    by (simp add: runTimer_def oneJob_def)
  have "history (runTimer 1 7000000000 (runTimer 1 5000000000 oneJob)) 1 \<noteq>
      history (runTimer 1 5000000000 oneJob) 1"
    unfolding a b by (simp add: tea_def)
  then have "runTimer 1 7000000000 (runTimer 1 5000000000 oneJob) \<noteq> runTimer 1 5000000000 oneJob"
    by auto
  with a b show ?thesis by simp
qed

subsection \<open>Rejected requests\<close>

text \<open>
  C6. A request to create a job with the delay \<open>d\<close> is rejected as an invalid delay
  exactly when \<open>d < 1\<close>. A rejected request, also one whose delay is not a number, leaves
  the globals as they were: the table, the order and the next ID; it gives out no job ID
  and starts no timer. A request with \<open>1 \<le> d\<close> is answered with the next ID and starts
  the timer for it.
\<close>

theorem startHandler_invalid_delay:
  "(fst (startHandler MethodPost (Some d) jobName now g) = Inl InvalidDelay) = (d < 1) \<and>
   (fst (startHandler MethodPost delay jobName now g) = Inl InvalidDelay \<longrightarrow>
      snd (startHandler MethodPost delay jobName now g) = g \<and>
      history (snd (startHandler MethodPost delay jobName now g)) = history g \<and>
      historyOrder (snd (startHandler MethodPost delay jobName now g)) = historyOrder g \<and>
      nextEntryID (snd (startHandler MethodPost delay jobName now g)) = nextEntryID g \<and>
      created (Start MethodPost delay jobName now) g = []) \<and>
   (1 \<le> d \<longrightarrow> fst (startHandler MethodPost (Some d) jobName now g) = Inr (Started (nextEntryID g) d))"
  by (cases delay) (auto simp add: startHandler_def Let_def keepHistoryBounded_def split: prod.splits)

theorem startHandler_invalid_delay_witness:
  "fst (startHandler MethodPost (Some 0) ''tea'' 9 oneJob) = Inl InvalidDelay \<and>
   snd (startHandler MethodPost (Some 0) ''tea'' 9 oneJob) = oneJob \<and>
   created (Start MethodPost (Some 0) ''tea'' 9) oneJob = [] \<and>
   (1::int) \<le> 5 \<and>
   fst (startHandler MethodPost (Some 5) ''tea'' 9 oneJob) = Inr (Started 2 5)"
  using startHandler_invalid_delay [of 0 "''tea''" 9 oneJob "Some 0"]
    startHandler_invalid_delay [of 5 "''tea''" 9 oneJob "Some 5"]
  by (simp add: oneJob_def)

subsection \<open>A completion for an ID that is not in the table\<close>

text \<open>
  C7. When the table has no entry for the job ID (the ID was never given out, or its entry
  was evicted), the body of \<^verbatim>\<open>runTimer\<close> leaves the globals as they are: the table, the
  order and the next ID. It adds no entry, and it has no failing path.
\<close>

theorem runTimer_absent_unchanged:
  "history g jobID = None \<Longrightarrow> runTimer jobID now g = g"
  by (simp add: runTimer_def)

text \<open>
  After twelve jobs were created the entry of job 1 is evicted; the completion of its timer
  changes nothing.
\<close>

theorem runTimer_absent_unchanged_witness:
  "history (run twelve initial) 1 = None \<and>
   runTimer 1 5000000000 (run twelve initial) = run twelve initial"
proof -
  have h: "history (run twelve initial) 1 = None" by code_simp
  from runTimer_absent_unchanged [OF h, of 5000000000] h show ?thesis by simp
qed

subsection \<open>Eviction\<close>

lemma evict_eq:
  "evict xs h = (drop (length xs - maxHistory) xs,
                 (\<lambda>k. if k \<in> set (take (length xs - maxHistory) xs) then None else h k))"
proof (induction xs arbitrary: h)
  case Nil
  show ?case by simp
next
  case (Cons x xs)
  show ?case
  proof (cases "length (x # xs) > maxHistory")
    case True
    then have "length (x # xs) - maxHistory = Suc (length xs - maxHistory)" by simp
    with True Cons show ?thesis by (auto simp add: fun_eq_iff)
  next
    case False
    then show ?thesis by simp
  qed
qed

lemma keepHistoryBounded_eq:
  "keepHistoryBounded g =
     g\<lparr>history := (\<lambda>k. if k \<in> set (take (length (historyOrder g) - maxHistory) (historyOrder g))
                         then None else history g k),
       historyOrder := drop (length (historyOrder g) - maxHistory) (historyOrder g)\<rparr>"
  by (cases "length (historyOrder g) \<le> maxHistory") (simp_all add: keepHistoryBounded_def evict_eq)

lemma nextEntryID_keepHistoryBounded:
  "nextEntryID (keepHistoryBounded g) = nextEntryID g"
  by (simp add: keepHistoryBounded_eq)

lemma set_drop_distinct:
  assumes "distinct xs"
  shows "set (drop n xs) = set xs - set (take n xs)"
proof -
  from assms have "distinct (take n xs @ drop n xs)" by simp
  then have "set (take n xs) \<inter> set (drop n xs) = {}" by (simp only: distinct_append)
  moreover have "set xs = set (take n xs) \<union> set (drop n xs)"
    by (metis append_take_drop_id set_append)
  ultimately show ?thesis by auto
qed

lemma keepHistoryBounded_consistent:
  assumes "consistent g"
  shows "consistent (keepHistoryBounded g)"
proof -
  let ?n = "length (historyOrder g) - maxHistory"
  from assms have d: "distinct (historyOrder g)" and e: "dom (history g) = set (historyOrder g)"
    by (simp_all add: consistent_def)
  have "dom (history (keepHistoryBounded g)) = dom (history g) - set (take ?n (historyOrder g))"
    by (auto simp add: keepHistoryBounded_eq dom_def)
  with e set_drop_distinct [OF d, of ?n] show ?thesis
    using d by (simp add: consistent_def keepHistoryBounded_eq)
qed

lemma runTimer_consistent:
  assumes "consistent g"
  shows "consistent (runTimer jobID now g)"
proof (cases "history g jobID")
  case None
  with assms show ?thesis by (simp add: runTimer_def)
next
  case (Some entry)
  then have "insert jobID (dom (history g)) = dom (history g)" by auto
  with assms Some show ?thesis by (simp add: runTimer_def consistent_def)
qed

subsection \<open>The counter\<close>

lemma wrap64_inj:
  assumes "wrap64 a = wrap64 b" and "\<bar>a - b\<bar> < 2 ^ 64"
  shows "a = b"
proof -
  from assms(1) have "(a + 2 ^ 63) mod 2 ^ 64 = (b + 2 ^ 63) mod 2 ^ 64"
    by (simp add: wrap64_def)
  then have "(2 ^ 64 :: int) dvd (a + 2 ^ 63) - (b + 2 ^ 63)" by (simp only: mod_eq_dvd_iff)
  then have d: "(2 ^ 64 :: int) dvd a - b" by simp
  show ?thesis
  proof (rule ccontr)
    assume "a \<noteq> b"
    then have "a - b \<noteq> 0" by simp
    from this d have "\<bar>2 ^ 64 :: int\<bar> \<le> \<bar>a - b\<bar>" by (rule dvd_imp_le_int)
    with assms(2) show False by simp
  qed
qed

lemma wrap64_wrap: "wrap64 (wrap64 x + y) = wrap64 (x + y)"
proof -
  have "wrap64 x = x + 2 ^ 64 * (- ((x + 2 ^ 63) div 2 ^ 64))"
    by (simp add: wrap64_def minus_mult_div_eq_mod [symmetric])
  then have "wrap64 x + y = (x + y) + 2 ^ 64 * (- ((x + 2 ^ 63) div 2 ^ 64))" by simp
  then show ?thesis by (simp only: wrap64_shift)
qed

lemma issuedID_Suc: "wrap64 (issuedID n + 1) = issuedID (Suc n)"
proof -
  have "wrap64 (wrap64 (int n + 1) + 1) = wrap64 (int n + 1 + 1)" by (rule wrap64_wrap)
  moreover have "int (Suc n) + 1 = int n + 1 + 1" by simp
  ultimately show ?thesis by (simp only: issuedID_def)
qed

lemma issuedID_inj:
  assumes "issuedID i = issuedID j" and "int i < int j + 2 ^ 64" and "int j < int i + 2 ^ 64"
  shows "i = j"
proof -
  from assms(2,3) have "\<bar>(int i + 1) - (int j + 1)\<bar> < 2 ^ 64" by simp
  with assms(1) have "int i + 1 = int j + 1" unfolding issuedID_def by (rule wrap64_inj)
  then show ?thesis by simp
qed

lemma issuedID_small: "int i < 2 ^ 63 - 1 \<Longrightarrow> issuedID i = int i + 1"
  by (simp add: issuedID_def wrap64_id)

lemma issuedID_window:
  assumes "n \<le> m + 2 ^ 64"
  shows "inj_on issuedID {m..<n}"
proof (rule inj_onI)
  fix i j
  assume i: "i \<in> {m..<n}" and j: "j \<in> {m..<n}" and e: "issuedID i = issuedID j"
  from i j assms have "int i < int j + 2 ^ 64" "int j < int i + 2 ^ 64"
    by (simp_all add: nat_less_iff nat_le_iff)
  with e show "i = j" by (rule issuedID_inj)
qed

subsection \<open>Creating a job\<close>

lemma startHandler_created:
  assumes "1 \<le> d"
  shows "startHandler MethodPost (Some d) jobName now g =
     (Inr (Started (nextEntryID g) d),
      (keepHistoryBounded
         (g\<lparr>history := (history g)(nextEntryID g \<mapsto>
               \<lparr>ID = nextEntryID g, Name = jobName, DateTimeAdded = now,
                TotalDelaySecs = d, IsCompleted = False, CompletedTime = None\<rparr>),
            historyOrder := historyOrder g @ [nextEntryID g]\<rparr>))
      \<lparr>nextEntryID := wrap64 (nextEntryID g + 1)\<rparr>)"
  using assms by (simp add: startHandler_def Let_def nextEntryID_keepHistoryBounded)

lemma startHandler_cases:
  "(\<exists>d. m = MethodPost \<and> delay = Some d \<and> 1 \<le> d) \<or>
   (snd (startHandler m delay jobName now g) = g \<and>
    (\<forall>j d. fst (startHandler m delay jobName now g) \<noteq> Inr (Started j d)))"
  by (cases m; cases delay) (auto simp add: startHandler_def)

lemma drop_snoc_window:
  "drop (length (drop (length ids - m) ids @ [x]) - m) (drop (length ids - m) ids @ [x])
     = drop (length (ids @ [x]) - m) (ids @ [x])"
  by (cases "length ids < m") (auto simp add: not_less Suc_diff_le)

lemma tracked_window:
  assumes "tracked g ids"
  shows "historyOrder g = map issuedID [length ids - maxHistory..<length ids]"
proof -
  from assms have "historyOrder g =
      drop (length ids - maxHistory) (map issuedID [0..<length ids])"
    unfolding tracked_def by metis
  then show ?thesis by (simp add: drop_map)
qed

lemma tracked_consistent:
  assumes "tracked g ids"
  shows "consistent g"
proof -
  let ?n = "length ids"
  have "?n \<le> (?n - maxHistory) + 2 ^ 64" by (simp add: maxHistory_def)
  then have "inj_on issuedID {?n - maxHistory..<?n}" by (rule issuedID_window)
  then have "distinct (map issuedID [?n - maxHistory..<?n])" by (simp add: distinct_map)
  then have "distinct (historyOrder g)" by (simp only: tracked_window [OF assms])
  with assms show ?thesis by (simp add: tracked_def consistent_def)
qed

lemma tracked_fresh:
  assumes "tracked g ids"
  shows "nextEntryID g \<notin> set (historyOrder g)"
proof
  let ?n = "length ids"
  assume "nextEntryID g \<in> set (historyOrder g)"
  with assms have "issuedID ?n \<in> issuedID ` {?n - maxHistory..<?n}"
    by (simp add: tracked_window [OF assms]) (simp add: tracked_def)
  then obtain i where i: "i \<in> {?n - maxHistory..<?n}" "issuedID ?n = issuedID i" by blast
  have "Suc ?n \<le> (?n - maxHistory) + 2 ^ 64" by (simp add: maxHistory_def)
  then have "inj_on issuedID {?n - maxHistory..<Suc ?n}" by (rule issuedID_window)
  with i have "?n = i" by (auto dest: inj_onD)
  with i(1) show False by simp
qed

lemma tracked_start:
  assumes t: "tracked g ids" and d: "1 \<le> d"
  shows "tracked (snd (startHandler MethodPost (Some d) jobName now g)) (ids @ [nextEntryID g])"
proof -
  let ?n = "nextEntryID g"
  let ?new = "\<lparr>ID = ?n, Name = jobName, DateTimeAdded = now,
                TotalDelaySecs = d, IsCompleted = False, CompletedTime = None\<rparr>"
  let ?g2 = "g\<lparr>history := (history g)(?n \<mapsto> ?new), historyOrder := historyOrder g @ [?n]\<rparr>"
  let ?g' = "(keepHistoryBounded ?g2)\<lparr>nextEntryID := wrap64 (?n + 1)\<rparr>"
  from t have n: "?n = issuedID (length ids)" and ids: "ids = map issuedID [0..<length ids]"
    and ord: "historyOrder g = drop (length ids - maxHistory) ids"
    and idk: "\<forall>k e. history g k = Some e \<longrightarrow> ID e = k \<and> 1 \<le> TotalDelaySecs e"
    unfolding tracked_def by blast+
  from tracked_consistent [OF t] have dm: "dom (history g) = set (historyOrder g)"
    and dord: "distinct (historyOrder g)" by (simp_all add: consistent_def)
  have "map issuedID [0..<length (ids @ [?n])] = map issuedID [0..<length ids] @ [?n]"
    by (simp add: n)
  with ids have ids': "ids @ [?n] = map issuedID [0..<length (ids @ [?n])]" by simp
  have c2: "consistent ?g2"
    using dm tracked_fresh [OF t] dord by (simp add: consistent_def)
  have c': "consistent (keepHistoryBounded ?g2)"
    using c2 by (rule keepHistoryBounded_consistent)
  have o': "historyOrder ?g' = drop (length (ids @ [?n]) - maxHistory) (ids @ [?n])"
    using drop_snoc_window [of ids maxHistory ?n] by (simp add: keepHistoryBounded_eq ord)
  have idk': "\<forall>k e. history ?g' k = Some e \<longrightarrow> ID e = k \<and> 1 \<le> TotalDelaySecs e"
    using idk d by (auto simp add: keepHistoryBounded_eq split: if_splits)
  have "tracked ?g' (ids @ [?n])"
    unfolding tracked_def
  proof (intro conjI)
    show "nextEntryID ?g' = issuedID (length (ids @ [?n]))"
      by (simp add: n issuedID_Suc)
    show "ids @ [?n] = map issuedID [0..<length (ids @ [?n])]" by (rule ids')
    show "historyOrder ?g' = drop (length (ids @ [?n]) - maxHistory) (ids @ [?n])" by (rule o')
    show "dom (history ?g') = set (historyOrder ?g')" using c' by (simp add: consistent_def)
    show "\<forall>k e. history ?g' k = Some e \<longrightarrow> ID e = k \<and> 1 \<le> TotalDelaySecs e"
      by (rule idk')
  qed
  then show ?thesis by (simp add: startHandler_created [OF d])
qed

lemma tracked_runTimer:
  assumes "tracked g ids"
  shows "tracked (runTimer jobID now g) ids"
proof (cases "history g jobID")
  case None
  with assms show ?thesis by (simp add: runTimer_def)
next
  case (Some entry)
  then have "insert jobID (dom (history g)) = dom (history g)" by auto
  with assms Some show ?thesis by (auto simp add: runTimer_def tracked_def)
qed

lemma tracked_step:
  assumes "tracked g ids"
  shows "tracked (step e g) (ids @ created e g)"
proof (cases e)
  case (Start m delay jobName now)
  from startHandler_cases [of m delay jobName now g] show ?thesis
  proof
    assume "\<exists>d. m = MethodPost \<and> delay = Some d \<and> 1 \<le> d"
    then obtain d where md: "m = MethodPost" "delay = Some d" "1 \<le> d" by blast
    with tracked_start [OF assms md(3), of jobName now] Start show ?thesis
      by (simp add: startHandler_created)
  next
    assume "snd (startHandler m delay jobName now g) = g \<and>
      (\<forall>j d. fst (startHandler m delay jobName now g) \<noteq> Inr (Started j d))"
    with assms Start show ?thesis
      by (auto split: sum.splits start_reply.splits)
  qed
next
  case (TimerDone jobID now)
  with assms show ?thesis by (simp add: tracked_runTimer)
next
  case (ApiDetail parsed now1 now2)
  with assms show ?thesis by (simp add: apiStatusDetailHandler_globals)
next
  case (PageDetail parsed now1 now2)
  with assms show ?thesis by (simp add: statusDetailHandler_globals)
qed

lemma tracked_run:
  "tracked g ids \<Longrightarrow> tracked (run es g) (ids @ issued es g)"
proof (induction es arbitrary: g ids)
  case Nil
  then show ?case by simp
next
  case (Cons e es)
  from Cons.prems have "tracked (step e g) (ids @ created e g)" by (rule tracked_step)
  then have "tracked (run es (step e g)) ((ids @ created e g) @ issued es (step e g))"
    by (rule Cons.IH)
  then show ?case by simp
qed

lemma tracked_initial: "tracked initial []"
  by (simp add: tracked_def initial_def issuedID_def wrap64_def)

lemma tracked_from_initial: "tracked (run es initial) (issued es initial)"
  using tracked_run [OF tracked_initial, of es] by simp

text \<open>Every entry that a run of the program leaves in the table has a delay of at least one second.\<close>

lemma stored_delay_positive:
  "history (run es initial) k = Some e \<Longrightarrow> 1 \<le> TotalDelaySecs e"
  using tracked_from_initial [of es] by (simp add: tracked_def)

text \<open>The example globals are those after one request that creates the job \<open>tea\<close>.\<close>

lemma oneJob_run: "run [Start MethodPost (Some 5) ''tea'' 0] initial = oneJob"
  by (simp add: startHandler_def keepHistoryBounded_def maxHistory_def initial_def oneJob_def
      tea_def Let_def wrap64_def)

text \<open>So are the globals that hold the job \<open>slowJob\<close>.\<close>

lemma slowGlobals_run: "run [Start MethodPost (Some 16777217) ''slow'' 0] initial = slowGlobals"
  by (simp add: startHandler_def keepHistoryBounded_def maxHistory_def initial_def
      slowGlobals_def slowJob_def Let_def wrap64_def)

text \<open>The job IDs of a run are the values of the counter, in turn.\<close>

lemma issued_nth:
  assumes "i < length (issued es initial)"
  shows "issued es initial ! i = issuedID i"
proof -
  from tracked_from_initial [of es]
  have "issued es initial = map issuedID [0..<length (issued es initial)]"
    unfolding tracked_def by blast
  then have "issued es initial ! i = map issuedID [0..<length (issued es initial)] ! i"
    by simp
  also from assms have "\<dots> = issuedID i" by simp
  finally show ?thesis .
qed

text \<open>While the counter has not wrapped around they are \<open>1, 2, \<dots>\<close>.\<close>

lemma issued_upto:
  assumes "int (length (issued es initial)) < 2 ^ 63"
  shows "issued es initial = [1..int (length (issued es initial))]"
proof (rule nth_equalityI)
  show "length (issued es initial) = length [1..int (length (issued es initial))]" by simp
next
  fix i
  assume i: "i < length (issued es initial)"
  with assms have "int i < 2 ^ 63 - 1" by simp
  then have "issuedID i = int i + 1" by (rule issuedID_small)
  with issued_nth [OF i] i show "issued es initial ! i = [1..int (length (issued es initial))] ! i"
    by simp
qed

text \<open>As long as fewer than \<open>2\<^sup>6\<^sup>4\<close> were given out, no ID was given out twice.\<close>

lemma issued_distinct:
  assumes "int (length (issued es initial)) \<le> 2 ^ 64"
  shows "distinct (issued es initial)"
proof -
  let ?n = "length (issued es initial)"
  from assms have "?n \<le> 0 + 2 ^ 64" by (simp add: nat_le_iff)
  then have "inj_on issuedID {0..<?n}" by (rule issuedID_window)
  then have "distinct (map issuedID [0..<?n])" by (simp add: distinct_map)
  moreover from tracked_from_initial [of es]
  have "issued es initial = map issuedID [0..<?n]" unfolding tracked_def by blast
  ultimately show ?thesis by simp
qed

text \<open>Each of a row of requests that create a job gives out one ID.\<close>

lemma issued_creates:
  assumes "1 \<le> d"
  shows "length (issued (replicate n (Start MethodPost (Some d) jobName now)) g) = n"
  using assms by (induction n arbitrary: g) (simp_all add: startHandler_created)

lemma start_appends:
  assumes t: "tracked g ids" and d: "1 \<le> d" and room: "length ids < maxHistory"
  shows "historyOrder (snd (startHandler MethodPost (Some d) jobName now g)) =
           historyOrder g @ [nextEntryID g]"
    and "dom (history (snd (startHandler MethodPost (Some d) jobName now g))) =
           insert (nextEntryID g) (dom (history g))"
proof -
  let ?g' = "snd (startHandler MethodPost (Some d) jobName now g)"
  from tracked_start [OF t d, of jobName now]
  have t': "tracked ?g' (ids @ [nextEntryID g])" .
  from t have "historyOrder g = drop (length ids - maxHistory) ids"
    unfolding tracked_def by blast
  with room have o: "historyOrder g = ids" by simp
  from t' have "historyOrder ?g' =
      drop (length (ids @ [nextEntryID g]) - maxHistory) (ids @ [nextEntryID g])"
    unfolding tracked_def by blast
  with room have o': "historyOrder ?g' = ids @ [nextEntryID g]" by simp
  from o o' show "historyOrder ?g' = historyOrder g @ [nextEntryID g]" by simp
  from t have "dom (history g) = set (historyOrder g)" unfolding tracked_def by blast
  moreover from t' have "dom (history ?g') = set (historyOrder ?g')"
    unfolding tracked_def by blast
  ultimately show "dom (history ?g') = insert (nextEntryID g) (dom (history g))"
    using o o' by simp
qed

lemma start_evicts_oldest:
  assumes t: "tracked g ids" and d: "1 \<le> d" and full: "maxHistory \<le> length ids"
  shows "historyOrder (snd (startHandler MethodPost (Some d) jobName now g)) =
           tl (historyOrder g) @ [nextEntryID g]"
    and "dom (history (snd (startHandler MethodPost (Some d) jobName now g))) =
           insert (nextEntryID g) (dom (history g) - {hd (historyOrder g)})"
    and "hd (historyOrder g) \<notin> dom (history (snd (startHandler MethodPost (Some d) jobName now g)))"
    and "hd (historyOrder g) = ids ! (length ids - maxHistory)"
proof -
  let ?g' = "snd (startHandler MethodPost (Some d) jobName now g)"
  let ?k = "length ids - maxHistory"
  from tracked_start [OF t d, of jobName now]
  have t': "tracked ?g' (ids @ [nextEntryID g])" .
  from t have o: "historyOrder g = drop ?k ids"
    and dm: "dom (history g) = set (historyOrder g)"
    unfolding tracked_def by blast+
  from full have k: "?k < length ids" by (simp add: maxHistory_def)
  then have ne: "historyOrder g \<noteq> []" using o by simp
  from full have "Suc (length ids) - maxHistory = Suc ?k" by (simp add: Suc_diff_le)
  moreover from t' have "historyOrder ?g' =
      drop (length (ids @ [nextEntryID g]) - maxHistory) (ids @ [nextEntryID g])"
    unfolding tracked_def by blast
  ultimately have "historyOrder ?g' = drop (Suc ?k) (ids @ [nextEntryID g])"
    by simp
  also have "\<dots> = drop (Suc ?k) ids @ [nextEntryID g]" using k by simp
  also have "drop (Suc ?k) ids = tl (historyOrder g)" by (simp add: o drop_Suc tl_drop)
  finally show o': "historyOrder ?g' = tl (historyOrder g) @ [nextEntryID g]" .
  from tracked_consistent [OF t] have dist: "distinct (historyOrder g)"
    by (simp add: consistent_def)
  from ne dist have st: "set (tl (historyOrder g)) = set (historyOrder g) - {hd (historyOrder g)}"
    by (cases "historyOrder g") auto
  from t' have dm': "dom (history ?g') = set (historyOrder ?g')" unfolding tracked_def by blast
  from dm' o' st dm show
    "dom (history ?g') = insert (nextEntryID g) (dom (history g) - {hd (historyOrder g)})"
    by simp
  from tracked_fresh [OF t] ne have "hd (historyOrder g) \<noteq> nextEntryID g"
    by (metis hd_in_set)
  with dm' o' st show "hd (historyOrder g) \<notin> dom (history ?g')" by simp
  from k show "hd (historyOrder g) = ids ! ?k" by (simp add: o hd_drop_conv_nth)
qed

text \<open>While the counter has not wrapped around, the first ID of the order is the least one.\<close>

lemma oldest_is_least:
  assumes "int (length (issued es initial)) < 2 ^ 63"
  shows "\<forall>j \<in> dom (history (run es initial)). hd (historyOrder (run es initial)) \<le> j"
proof (cases "historyOrder (run es initial)")
  case Nil
  from tracked_from_initial [of es] have "dom (history (run es initial)) =
      set (historyOrder (run es initial))" unfolding tracked_def by blast
  with Nil show ?thesis by simp
next
  case (Cons x xs)
  from tracked_from_initial [of es]
  have o: "historyOrder (run es initial) =
      drop (length (issued es initial) - maxHistory) (issued es initial)"
    and dm: "dom (history (run es initial)) = set (historyOrder (run es initial))"
    unfolding tracked_def by blast+
  have "sorted (issued es initial)" by (subst issued_upto [OF assms]) simp
  then have "sorted (historyOrder (run es initial))" by (simp add: o sorted_wrt_drop)
  with Cons dm show ?thesis by auto
qed

lemma tracked_card:
  assumes "tracked g ids"
  shows "card (dom (history g)) = min (length ids) maxHistory"
proof -
  from tracked_consistent [OF assms] have "card (dom (history g)) = length (historyOrder g)"
    by (simp add: consistent_def distinct_card)
  moreover from assms have "historyOrder g = drop (length ids - maxHistory) ids"
    unfolding tracked_def by blast
  ultimately show ?thesis by auto
qed

subsection \<open>What the registry retains\<close>

text \<open>
  C3. After any run of the program the order holds the last \<^verbatim>\<open>maxHistory\<close> job IDs
  given out (all of them while they are fewer), in the order of creation, the table has an
  entry for exactly these, and so never more than \<^verbatim>\<open>maxHistory\<close> entries. After
  \<open>maxHistory + k\<close> jobs were created, the registry retains exactly \<^verbatim>\<open>maxHistory\<close>
  jobs: all but the first \<open>k\<close> IDs given out. Creating one more job then evicts exactly
  the first ID of the order, which is the oldest one retained (the one created first; also
  the least ID in the table, as long as the counter has not wrapped around), and adds the
  new ID at the end.
\<close>

theorem registry_keeps_newest:
  "historyOrder (run es initial) =
     drop (length (issued es initial) - maxHistory) (issued es initial) \<and>
   dom (history (run es initial)) = set (historyOrder (run es initial)) \<and>
   card (dom (history (run es initial))) = min (length (issued es initial)) maxHistory \<and>
   (length (issued es initial) = maxHistory + k \<longrightarrow>
      historyOrder (run es initial) = drop k (issued es initial) \<and>
      dom (history (run es initial)) = set (drop k (issued es initial)) \<and>
      card (dom (history (run es initial))) = maxHistory \<and>
      (1 \<le> d \<longrightarrow>
         hd (historyOrder (run es initial)) = issued es initial ! k \<and>
         (int (length (issued es initial)) < 2 ^ 63 \<longrightarrow>
            (\<forall>j \<in> dom (history (run es initial)). hd (historyOrder (run es initial)) \<le> j)) \<and>
         historyOrder (snd (startHandler MethodPost (Some d) jobName now (run es initial))) =
           tl (historyOrder (run es initial)) @ [nextEntryID (run es initial)] \<and>
         dom (history (snd (startHandler MethodPost (Some d) jobName now (run es initial)))) =
           insert (nextEntryID (run es initial))
             (dom (history (run es initial)) - {hd (historyOrder (run es initial))})))"
proof -
  let ?g = "run es initial" and ?ids = "issued es initial"
  have t: "tracked ?g ?ids" by (rule tracked_from_initial)
  have a: "historyOrder ?g = drop (length ?ids - maxHistory) ?ids"
    and b: "dom (history ?g) = set (historyOrder ?g)"
    using t unfolding tracked_def by blast+
  note c = tracked_card [OF t]
  have e: "hd (historyOrder ?g) = ?ids ! k \<and>
         historyOrder (snd (startHandler MethodPost (Some d) jobName now ?g)) =
           tl (historyOrder ?g) @ [nextEntryID ?g] \<and>
         dom (history (snd (startHandler MethodPost (Some d) jobName now ?g))) =
           insert (nextEntryID ?g) (dom (history ?g) - {hd (historyOrder ?g)})"
    if len: "length ?ids = maxHistory + k" and d: "1 \<le> d"
  proof -
    from len have full: "maxHistory \<le> length ?ids" and k: "length ?ids - maxHistory = k"
      by simp_all
    from start_evicts_oldest [OF t d full] k show ?thesis by simp
  qed
  have l: "\<forall>j \<in> dom (history ?g). hd (historyOrder ?g) \<le> j"
    if "int (length ?ids) < 2 ^ 63"
    using that by (rule oldest_is_least)
  from a b c e l show ?thesis by auto
qed

theorem registry_keeps_newest_witness:
  "length (issued twelve initial) = maxHistory + 2 \<and> (1::int) \<le> 5 \<and>
   int (length (issued twelve initial)) < 2 ^ 63 \<and>
   issued twelve initial = [1, 2, 3, 4, 5, 6, 7, 8, 9, 10, 11, 12] \<and>
   historyOrder (run twelve initial) = drop 2 (issued twelve initial) \<and>
   dom (history (run twelve initial)) = set (drop 2 (issued twelve initial)) \<and>
   card (dom (history (run twelve initial))) = maxHistory \<and>
   hd (historyOrder (run twelve initial)) = issued twelve initial ! 2 \<and>
   hd (historyOrder (run twelve initial)) = 3 \<and>
   dom (history (snd (startHandler MethodPost (Some 5) ''tea'' 0 (run twelve initial)))) =
     insert (nextEntryID (run twelve initial))
       (dom (history (run twelve initial)) - {hd (historyOrder (run twelve initial))})"
proof -
  have i: "issued twelve initial = [1, 2, 3, 4, 5, 6, 7, 8, 9, 10, 11, 12]" by code_simp
  have l: "length (issued twelve initial) = maxHistory + 2" by code_simp
  from registry_keeps_newest [where es = twelve and k = 2 and d = 5 and jobName = "''tea''"
      and now = 0] l i
  show ?thesis by simp
qed

subsection \<open>Job IDs\<close>

text \<open>
  C4, as amended. While fewer than \<open>2\<^sup>6\<^sup>3\<close> job IDs were given out in a run of the
  program, whatever else happens in it and however many entries were evicted, the IDs
  given out are \<open>1, 2, \<dots>, n\<close> in this order: they start at 1, are strictly increasing
  and are never given out twice; the next ID is \<open>n + 1\<close> while that is a 64-bit number.
\<close>

theorem job_ids_increase:
  assumes "int (length (issued es initial)) < 2 ^ 63"
  shows "issued es initial = [1..int (length (issued es initial))] \<and>
   sorted_wrt (<) (issued es initial) \<and>
   distinct (issued es initial) \<and>
   (int (length (issued es initial)) < 2 ^ 63 - 1 \<longrightarrow>
      nextEntryID (run es initial) = int (length (issued es initial)) + 1)"
proof -
  note i = issued_upto [OF assms]
  have "sorted_wrt (<) (issued es initial)" by (subst i) (rule sorted_wrt_upto)
  moreover have "distinct (issued es initial)" by (subst i) (rule distinct_upto)
  moreover have "nextEntryID (run es initial) = int (length (issued es initial)) + 1"
    if "int (length (issued es initial)) < 2 ^ 63 - 1"
  proof -
    from tracked_from_initial [of es]
    have "nextEntryID (run es initial) = issuedID (length (issued es initial))"
      unfolding tracked_def by blast
    with issuedID_small [OF that] show ?thesis by simp
  qed
  ultimately show ?thesis using i by blast
qed

theorem job_ids_increase_witness:
  "int (length (issued twelve initial)) < 2 ^ 63 \<and>
   int (length (issued twelve initial)) < 2 ^ 63 - 1 \<and>
   issued twelve initial = [1..12] \<and> sorted_wrt (<) (issued twelve initial) \<and>
   distinct (issued twelve initial) \<and> nextEntryID (run twelve initial) = 13"
proof -
  have l: "length (issued twelve initial) = 12" by code_simp
  then have b: "int (length (issued twelve initial)) < 2 ^ 63" by simp
  from job_ids_increase [OF b] l show ?thesis by simp
qed

text \<open>
  C4 as it is written is about every sequence of creates. The counter is a 64-bit
  \<^verbatim>\<open>int\<close>: in a run that creates \<open>2\<^sup>6\<^sup>3\<close> jobs the job before the last gets the
  greatest 64-bit number as its ID, and the last job the least one.
\<close>

theorem job_ids_wrap_counterexample:
  "length (issued overflowing initial) = 2 ^ 63 \<and>
   issued overflowing initial ! 0 = 1 \<and>
   issued overflowing initial ! (2 ^ 63 - 2) = 2 ^ 63 - 1 \<and>
   issued overflowing initial ! (2 ^ 63 - 1) = - (2 ^ 63) \<and>
   \<not> sorted_wrt (<) (issued overflowing initial)"
proof -
  have l: "length (issued overflowing initial) = 2 ^ 63"
    unfolding overflowing_def by (rule issued_creates) simp
  have a: "issued overflowing initial ! 0 = 1"
    by (subst issued_nth) (simp_all add: l issuedID_def wrap64_def)
  have b: "issued overflowing initial ! (2 ^ 63 - 2) = 2 ^ 63 - 1"
    by (subst issued_nth) (simp_all add: l issuedID_def wrap64_def)
  have c: "issued overflowing initial ! (2 ^ 63 - 1) = - (2 ^ 63)"
    by (subst issued_nth) (simp_all add: l issuedID_def wrap64_def)
  have "\<not> sorted_wrt (<) (issued overflowing initial)"
  proof
    assume "sorted_wrt (<) (issued overflowing initial)"
    then have "issued overflowing initial ! (2 ^ 63 - 2) < issued overflowing initial ! (2 ^ 63 - 1)"
      by (rule sorted_wrt_nth_less) (simp_all add: l)
    with b c show False by simp
  qed
  with l a b c show ?thesis by blast
qed

subsection \<open>The table and the order\<close>

text \<open>
  C10. After every run of the program the keys of \<^verbatim>\<open>history\<close> are the IDs in
  \<^verbatim>\<open>historyOrder\<close>, and no ID is twice in \<^verbatim>\<open>historyOrder\<close>. Each operation keeps
  this: the eviction of \<^verbatim>\<open>keepHistoryBounded\<close> and the completion of a timer from any
  globals that have it, a request to \<^verbatim>\<open>/start\<close> from any such globals whose next ID is
  not yet in the order.
\<close>

theorem table_and_order_agree:
  "consistent (run es initial) \<and>
   (consistent g \<longrightarrow> consistent (keepHistoryBounded g)) \<and>
   (consistent g \<longrightarrow> consistent (runTimer jobID now g)) \<and>
   (consistent g \<and> nextEntryID g \<notin> set (historyOrder g) \<longrightarrow>
      consistent (snd (startHandler m delay jobName now g)))"
proof -
  have "consistent (run es initial)"
    using tracked_from_initial by (rule tracked_consistent)
  moreover have "consistent (snd (startHandler m delay jobName now g))"
    if c: "consistent g" and f: "nextEntryID g \<notin> set (historyOrder g)"
  proof -
    from startHandler_cases [of m delay jobName now g] show ?thesis
    proof
      assume "\<exists>d. m = MethodPost \<and> delay = Some d \<and> 1 \<le> d"
      then obtain d where md: "m = MethodPost" "delay = Some d" "1 \<le> d" by blast
      let ?g2 = "g\<lparr>history := (history g)(nextEntryID g \<mapsto>
               \<lparr>ID = nextEntryID g, Name = jobName, DateTimeAdded = now,
                TotalDelaySecs = d, IsCompleted = False, CompletedTime = None\<rparr>),
            historyOrder := historyOrder g @ [nextEntryID g]\<rparr>"
      from c f have "consistent ?g2" by (simp add: consistent_def)
      then have "consistent (keepHistoryBounded ?g2)" by (rule keepHistoryBounded_consistent)
      then show ?thesis
        by (simp add: md startHandler_created [OF md(3)] consistent_def)
    next
      assume "snd (startHandler m delay jobName now g) = g \<and>
        (\<forall>j d. fst (startHandler m delay jobName now g) \<noteq> Inr (Started j d))"
      with c show ?thesis by simp
    qed
  qed
  ultimately show ?thesis
    by (simp add: keepHistoryBounded_consistent runTimer_consistent)
qed

theorem table_and_order_agree_witness:
  "consistent oneJob \<and> nextEntryID oneJob \<notin> set (historyOrder oneJob) \<and>
   consistent (run twelve initial) \<and>
   consistent (keepHistoryBounded oneJob) \<and>
   consistent (runTimer 1 0 oneJob) \<and>
   consistent (snd (startHandler MethodPost (Some 5) ''tea'' 0 oneJob))"
proof -
  have c: "consistent oneJob" "nextEntryID oneJob \<notin> set (historyOrder oneJob)"
    by (simp_all add: consistent_def oneJob_def)
  from table_and_order_agree [where es = twelve and g = oneJob and jobID = 1 and now = 0
      and m = MethodPost and delay = "Some 5" and jobName = "''tea''"] c
  show ?thesis by simp
qed

subsection \<open>Looking a job up\<close>

text \<open>
  C8. Both detail handlers answer \<^verbatim>\<open>NotFound\<close> exactly when the table has no entry for
  the job ID, and for an ID in the table they answer with the fields of its entry. In a
  run of the program the table has no entry for an ID exactly when the ID is not among the
  last \<^verbatim>\<open>maxHistory\<close> given out; as long as no more than \<open>2\<^sup>6\<^sup>4\<close> IDs were given out,
  so that none was given out twice, that is when the ID was never given out or is among
  those evicted, which are all but the last \<^verbatim>\<open>maxHistory\<close> given out. The entry found
  under an ID carries that ID.
\<close>

theorem detail_NotFound_iff:
  "(fst (apiStatusDetailHandler (Some jobID) now1 now2 g) = Inl NotFound) = (jobID \<notin> dom (history g)) \<and>
   (fst (statusDetailHandler (Some jobID) now1 now2 g) = Inl NotFound) = (jobID \<notin> dom (history g)) \<and>
   (history g jobID = Some e \<longrightarrow>
      (\<exists>r. fst (apiStatusDetailHandler (Some jobID) now1 now2 g) = Inr r \<and>
           respID r = ID e \<and> respName r = Name e \<and> respDateTimeAdded r = DateTimeAdded e \<and>
           respTotalDelaySecs r = TotalDelaySecs e \<and> respCompletedTime r = CompletedTime e) \<and>
      (\<exists>p. fst (statusDetailHandler (Some jobID) now1 now2 g) = Inr p \<and>
           pageJobID p = jobID \<and> pageName p = Name e \<and> pageTimeAdded p = DateTimeAdded e \<and>
           pageTotalDelaySecs p = TotalDelaySecs e \<and> pageCompletedTime p = CompletedTime e)) \<and>
   (jobID \<notin> dom (history (run es initial))) =
     (jobID \<notin> set (drop (length (issued es initial) - maxHistory) (issued es initial))) \<and>
   (int (length (issued es initial)) \<le> 2 ^ 64 \<longrightarrow>
    (jobID \<notin> dom (history (run es initial))) =
      (jobID \<notin> set (issued es initial) \<or>
       jobID \<in> set (take (length (issued es initial) - maxHistory) (issued es initial)))) \<and>
   (history (run es initial) jobID = Some e' \<longrightarrow> ID e' = jobID)"
proof -
  let ?ids = "issued es initial"
  have t: "tracked (run es initial) ?ids" by (rule tracked_from_initial)
  then have dm: "dom (history (run es initial)) = set (drop (length ?ids - maxHistory) ?ids)"
    unfolding tracked_def by metis
  then have u: "(jobID \<notin> dom (history (run es initial))) =
     (jobID \<notin> set (drop (length ?ids - maxHistory) ?ids))"
    by simp
  have r: "(jobID \<notin> dom (history (run es initial))) =
     (jobID \<notin> set ?ids \<or> jobID \<in> set (take (length ?ids - maxHistory) ?ids))"
    if "int (length ?ids) \<le> 2 ^ 64"
  proof -
    from that have "distinct ?ids" by (rule issued_distinct)
    from set_drop_distinct [OF this, of "length ?ids - maxHistory"] dm
    have "dom (history (run es initial)) =
        set ?ids - set (take (length ?ids - maxHistory) ?ids)"
      by simp
    then show ?thesis by blast
  qed
  from t have i: "history (run es initial) jobID = Some e' \<longrightarrow> ID e' = jobID"
    unfolding tracked_def by blast
  have h: "(fst (apiStatusDetailHandler (Some jobID) now1 now2 g) = Inl NotFound) = (jobID \<notin> dom (history g)) \<and>
   (fst (statusDetailHandler (Some jobID) now1 now2 g) = Inl NotFound) = (jobID \<notin> dom (history g)) \<and>
   (history g jobID = Some e \<longrightarrow>
      (\<exists>r. fst (apiStatusDetailHandler (Some jobID) now1 now2 g) = Inr r \<and>
           respID r = ID e \<and> respName r = Name e \<and> respDateTimeAdded r = DateTimeAdded e \<and>
           respTotalDelaySecs r = TotalDelaySecs e \<and> respCompletedTime r = CompletedTime e) \<and>
      (\<exists>p. fst (statusDetailHandler (Some jobID) now1 now2 g) = Inr p \<and>
           pageJobID p = jobID \<and> pageName p = Name e \<and> pageTimeAdded p = DateTimeAdded e \<and>
           pageTotalDelaySecs p = TotalDelaySecs e \<and> pageCompletedTime p = CompletedTime e))"
    by (cases "history g jobID")
      (auto simp add: apiStatusDetailHandler_def statusDetailHandler_def Let_def split: prod.splits)
  from h have h1: "(fst (apiStatusDetailHandler (Some jobID) now1 now2 g) = Inl NotFound) =
      (jobID \<notin> dom (history g))"
    and h2: "(fst (statusDetailHandler (Some jobID) now1 now2 g) = Inl NotFound) =
      (jobID \<notin> dom (history g))"
    and h3: "history g jobID = Some e \<longrightarrow>
      (\<exists>r. fst (apiStatusDetailHandler (Some jobID) now1 now2 g) = Inr r \<and>
           respID r = ID e \<and> respName r = Name e \<and> respDateTimeAdded r = DateTimeAdded e \<and>
           respTotalDelaySecs r = TotalDelaySecs e \<and> respCompletedTime r = CompletedTime e) \<and>
      (\<exists>p. fst (statusDetailHandler (Some jobID) now1 now2 g) = Inr p \<and>
           pageJobID p = jobID \<and> pageName p = Name e \<and> pageTimeAdded p = DateTimeAdded e \<and>
           pageTotalDelaySecs p = TotalDelaySecs e \<and> pageCompletedTime p = CompletedTime e)"
    by blast+
  from r have r': "int (length ?ids) \<le> 2 ^ 64 \<longrightarrow>
    (jobID \<notin> dom (history (run es initial))) =
      (jobID \<notin> set ?ids \<or> jobID \<in> set (take (length ?ids - maxHistory) ?ids))"
    by (rule impI)
  show ?thesis
    apply (rule conjI, rule h1)
    apply (rule conjI, rule h2)
    apply (rule conjI, rule h3)
    apply (rule conjI, rule u)
    apply (rule conjI, rule r')
    apply (rule i)
    done
qed

theorem detail_NotFound_iff_witness:
  "history oneJob 1 = Some tea \<and> history (run twelve initial) 12 \<noteq> None \<and>
   int (length (issued twelve initial)) \<le> 2 ^ 64 \<and>
   fst (apiStatusDetailHandler (Some 2) 0 0 oneJob) = Inl NotFound \<and>
   fst (statusDetailHandler (Some 2) 0 0 oneJob) = Inl NotFound \<and>
   (\<exists>r. fst (apiStatusDetailHandler (Some 1) 0 0 oneJob) = Inr r \<and>
        respID r = 1 \<and> respName r = ''tea'' \<and> respTotalDelaySecs r = 5) \<and>
   (\<exists>p. fst (statusDetailHandler (Some 1) 0 0 oneJob) = Inr p \<and>
        pageJobID p = 1 \<and> pageName p = ''tea'') \<and>
   2 \<in> set (take (length (issued twelve initial) - maxHistory) (issued twelve initial)) \<and>
   2 \<notin> dom (history (run twelve initial)) \<and>
   map_option ID (history (run twelve initial) 12) = Some 12"
proof -
  have h: "history oneJob 1 = Some tea" "history oneJob 2 = None" by (simp_all add: oneJob_def)
  have i: "issued twelve initial = [1, 2, 3, 4, 5, 6, 7, 8, 9, 10, 11, 12]" by code_simp
  have e: "2 \<in> set (take (length (issued twelve initial) - maxHistory) (issued twelve initial))"
    by (simp add: i maxHistory_def)
  have l: "int (length (issued twelve initial)) \<le> 2 ^ 64" by (simp add: i)
  have n: "history (run twelve initial) 12 \<noteq> None" by code_simp
  then obtain e' where e': "history (run twelve initial) 12 = Some e'" by blast
  have n2: "history (run twelve initial) 2 = None" by code_simp
  from detail_NotFound_iff [of 2 0 0 oneJob tea twelve e'] h(2)
  have a: "fst (apiStatusDetailHandler (Some 2) 0 0 oneJob) = Inl NotFound"
    "fst (statusDetailHandler (Some 2) 0 0 oneJob) = Inl NotFound"
    by (simp_all add: domIff)
  from detail_NotFound_iff [of 1 0 0 oneJob tea twelve e'] h(1)
  have b: "\<exists>r. fst (apiStatusDetailHandler (Some 1) 0 0 oneJob) = Inr r \<and>
        respID r = 1 \<and> respName r = ''tea'' \<and> respTotalDelaySecs r = 5"
    "\<exists>p. fst (statusDetailHandler (Some 1) 0 0 oneJob) = Inr p \<and>
        pageJobID p = 1 \<and> pageName p = ''tea''"
    by (auto simp add: tea_def)
  from detail_NotFound_iff [of 12 0 0 oneJob tea twelve e'] e'
  have c: "map_option ID (history (run twelve initial) 12) = Some 12" by simp
  from n2 have d: "2 \<notin> dom (history (run twelve initial))" by (simp add: domIff)
  from h(1) n l a b e d c show ?thesis by blast
qed

end
